theory Spec2Isabelle
  imports Main
begin

section \<open>Heading anchors: the tree transform and the anchor renderer\<close>

text \<open>
  A shallow embedding of \<^verbatim>\<open>extension/anchor.go\<close>: the transform pass that gives
  headings an anchor child, and the render callback that writes an anchor node as an
  \<^verbatim>\<open><a>\<close> element. Go byte slices and strings are lists of \<^typ>\<open>char\<close> (a
  \<^typ>\<open>char\<close> is one byte). The tree the Go code mutates through pointers is a value
  here: an operation that changes a node returns the changed node.
\<close>

subsection \<open>Data\<close>

type_synonym bytes = "char list"

text \<open>
  An attribute value is an \<^verbatim>\<open>interface{}\<close> in Go. The code distinguishes a byte
  slice from everything else; a Go string and any other dynamic type are kept apart so
  that a value that is not a byte slice exists in the model.
\<close>

datatype attr_value = BytesVal bytes | StringVal string | OtherVal

type_synonym Attribute = "bytes \<times> attr_value"

text \<open>
  \<^verbatim>\<open>ast.Heading\<close> carries \<^verbatim>\<open>Level\<close>; the anchor \<^verbatim>\<open>Node\<close> carries
  \<^verbatim>\<open>ID\<close>, \<^verbatim>\<open>Level\<close> and \<^verbatim>\<open>Value\<close>; every other kind of node is named by its
  kind. All of them embed the base node: an attribute list and the children, in order.
\<close>

datatype node_kind =
    KHeading int
  | KAnchor bytes int bytes
  | KOther string

datatype node = Node (kind: node_kind) (attributes: "Attribute list") (children: "node list")

record HeaderInfo =
  Level :: int
  ID :: bytes

text \<open>\<^verbatim>\<open>type Position int\<close> with \<^verbatim>\<open>After = iota\<close> and \<^verbatim>\<open>Before\<close> next
  (written \<open>Before_Position\<close>: the code generator turns the plain name into a reserved
  word of its target language).\<close>

type_synonym Position = int

definition After :: Position where
  "After = 0"

definition Before_Position :: Position where
  "Before_Position = 1"

text \<open>
  A \<^verbatim>\<open>Texter\<close> maps the header info to the anchor text. An \<^verbatim>\<open>Attributer\<close> returns
  a Go map; the model takes its entries as a list, in the order in which the
  \<^verbatim>\<open>range\<close> loop of the transform meets them.
\<close>

type_synonym Texter = "HeaderInfo \<Rightarrow> bytes"

type_synonym Attributer = "HeaderInfo \<Rightarrow> (string \<times> string) list"

definition Text :: "string \<Rightarrow> Texter" where
  "Text s = (\<lambda>_. s)"

definition Attributes :: "(string \<times> string) list \<Rightarrow> Attributer" where
  "Attributes as = (\<lambda>_. as)"

text \<open>The default text is the pilcrow sign, two bytes in UTF-8.\<close>

definition defaultTexter :: Texter where
  "defaultTexter = Text [CHR 0xC2, CHR 0xB6]"

definition defaultAttributer :: Attributer where
  "defaultAttributer = Attributes [(''class'', ''anchor'')]"

text \<open>A nil interface value in a field of \<^verbatim>\<open>Transformer\<close> is \<^const>\<open>None\<close>.\<close>

record Transformer =
  T_Texter :: "Texter option"
  T_Position :: Position
  T_Attributer :: "Attributer option"

record transform =
  Texter :: Texter
  Position :: Position
  Attributer :: Attributer

record Renderer =
  R_Position :: Position
  Unsafe :: bool

datatype WalkStatus = WalkStop | WalkSkipChildren | WalkContinue

datatype error = Error string

subsection \<open>The node interface of the host\<close>

text \<open>
  Modelled from the spec: the methods of the base node (\<^verbatim>\<open>ast.BaseNode\<close>) are not
  among the source files. The spec gives the tree node "append-child, insert-before /
  insert-after relative to a sibling, and a string-or-bytes attribute getter/setter keyed
  by name". A sibling is named by its index among the children; \<^const>\<open>None\<close> is the
  nil node.
\<close>

definition AttributeString :: "node \<Rightarrow> string \<Rightarrow> attr_value option" where
  "AttributeString n name = map_of (attributes n) name"

fun set_attribute :: "Attribute list \<Rightarrow> bytes \<Rightarrow> attr_value \<Rightarrow> Attribute list" where
  "set_attribute [] name v = [(name, v)]"
| "set_attribute ((k, x) # as) name v =
     (if k = name then (name, v) # as else (k, x) # set_attribute as name v)"

definition SetAttributeString :: "node \<Rightarrow> string \<Rightarrow> attr_value \<Rightarrow> node" where
  "SetAttributeString n name v = Node (kind n) (set_attribute (attributes n) name v) (children n)"

definition ChildCount :: "node \<Rightarrow> nat" where
  "ChildCount n = length (children n)"

definition FirstChild :: "node \<Rightarrow> nat option" where
  "FirstChild n = (if children n = [] then None else Some 0)"

definition LastChild :: "node \<Rightarrow> nat option" where
  "LastChild n = (if children n = [] then None else Some (length (children n) - 1))"

definition NextSibling :: "node \<Rightarrow> nat \<Rightarrow> nat option" where
  "NextSibling parent i = (if Suc i < length (children parent) then Some (Suc i) else None)"

definition AppendChild :: "node \<Rightarrow> node \<Rightarrow> node" where
  "AppendChild self v = Node (kind self) (attributes self) (children self @ [v])"

definition InsertBefore :: "node \<Rightarrow> nat option \<Rightarrow> node \<Rightarrow> node" where
  "InsertBefore self v1 insertee =
     (case v1 of
        None \<Rightarrow> AppendChild self insertee
      | Some i \<Rightarrow>
          Node (kind self) (attributes self)
            (take i (children self) @ insertee # drop i (children self)))"

definition InsertAfter :: "node \<Rightarrow> nat option \<Rightarrow> node \<Rightarrow> node" where
  "InsertAfter self v1 insertee =
     (case v1 of
        None \<Rightarrow> AppendChild self insertee
      | Some i \<Rightarrow> InsertBefore self (NextSibling self i) insertee)"

subsection \<open>The transform of one heading\<close>

text \<open>
  The anchor node of lines 306 to 314: \<^verbatim>\<open>&Node{ID: id, Level: h.Level, Value: text}\<close>
  followed by the loop that sets each attribute the attributer returned, the value
  converted to a byte slice.
\<close>

definition new_anchor :: "bytes \<Rightarrow> int \<Rightarrow> bytes \<Rightarrow> (string \<times> string) list \<Rightarrow> node" where
  "new_anchor id' level text attrs =
     foldl (\<lambda>n (name, value). SetAttributeString n name (BytesVal value))
       (Node (KAnchor id' level text) [] []) attrs"

text \<open>
  \<^verbatim>\<open>func (t *transform) transform(h *ast.Heading)\<close>. The Go method changes the
  heading in place; the model returns the heading after the call. Each early
  \<^verbatim>\<open>return\<close> of the source is a branch that returns the heading as it was. The
  parameter is typed \<^verbatim>\<open>*ast.Heading\<close> in Go, so the last branch (a node of another
  kind) is never taken by a caller in the source.
\<close>

definition transform_transform :: "transform \<Rightarrow> node \<Rightarrow> node" where
  "transform_transform t h =
     (case kind h of
        KHeading level \<Rightarrow>
          (case AttributeString h ''id'' of
             None \<Rightarrow> h
           | Some idattr \<Rightarrow>
               (case idattr of
                  BytesVal id' \<Rightarrow>
                    (let info = \<lparr>Level = level, ID = id'\<rparr>;
                         text = Texter t info
                     in if length text = 0 then h
                        else let n = new_anchor id' level text (Attributer t info)
                             in if ChildCount h = 0 then AppendChild h n
                                else if Position t = Before_Position
                                     then InsertBefore h (FirstChild h) n
                                     else InsertAfter h (LastChild h) n)
                | _ \<Rightarrow> h))
      | _ \<Rightarrow> h)"

text \<open>
  \<^verbatim>\<open>func (t *transform) Visit(n ast.Node, enter bool) (ast.WalkStatus, error)\<close>:
  the status, the error (\<^const>\<open>None\<close> is nil) and the node after the visit.
\<close>

type_synonym Walker = "node \<Rightarrow> bool \<Rightarrow> WalkStatus \<times> error option \<times> node"

definition transform_Visit :: "transform \<Rightarrow> Walker" where
  "transform_Visit t n enter =
     (if \<not> enter then (WalkContinue, None, n)
      else (case kind n of
              KHeading level \<Rightarrow> (WalkSkipChildren, None, transform_transform t n)
            | _ \<Rightarrow> (WalkContinue, None, n)))"

subsection \<open>The traversal\<close>

text \<open>
  Modelled from the spec: \<^verbatim>\<open>ast.Walk\<close> is not among the source files. The spec
  gives a "pre-order walk with an enter/exit callback; callback returns one of {continue,
  skip-subtree}; walk as a whole may fail, aborting remaining visits". The walk calls the
  walker on entering a node, walks the children of the node as the walker left it unless
  told to skip them, and calls the walker again on leaving. A node is named by its path
  from the root (the child indices at the time of the visit); the walk records every call
  of the walker as a pair of the path and the \<^verbatim>\<open>entering\<close> flag. The recursion
  depth is bounded by a fuel argument, since a walker may return any node: \<^const>\<open>None\<close>
  is a walk that ran out of fuel.
\<close>

type_synonym path = "nat list"

type_synonym visit = "path \<times> bool"

fun walkHelper ::
    "nat \<Rightarrow> Walker \<Rightarrow> path \<Rightarrow> node \<Rightarrow> (WalkStatus \<times> error option \<times> node \<times> visit list) option"
  and walkChildren ::
    "nat \<Rightarrow> Walker \<Rightarrow> path \<Rightarrow> nat \<Rightarrow> node list \<Rightarrow>
       (WalkStatus \<times> error option \<times> node list \<times> visit list) option"
where
  "walkHelper 0 walker p n = None"
| "walkHelper (Suc fuel) walker p n =
     (case walker n True of
        (status, err, n1) \<Rightarrow>
          if err \<noteq> None \<or> status = WalkStop then Some (status, err, n1, [(p, True)])
          else
            (case (if status \<noteq> WalkSkipChildren then walkChildren fuel walker p 0 (children n1)
                   else Some (WalkContinue, None, children n1, [])) of
               None \<Rightarrow> None
             | Some (st, err2, cs, vs) \<Rightarrow>
                 let n2 = Node (kind n1) (attributes n1) cs in
                 if err2 \<noteq> None \<or> st = WalkStop
                 then Some (WalkStop, err2, n2, (p, True) # vs)
                 else
                   (case walker n2 False of
                      (status3, err3, n3) \<Rightarrow>
                        if err3 \<noteq> None \<or> status3 = WalkStop
                        then Some (WalkStop, err3, n3, (p, True) # vs @ [(p, False)])
                        else Some (WalkContinue, None, n3, (p, True) # vs @ [(p, False)]))))"
| "walkChildren fuel walker p i [] = Some (WalkContinue, None, [], [])"
| "walkChildren fuel walker p i (c # cs) =
     (case walkHelper fuel walker (p @ [i]) c of
        None \<Rightarrow> None
      | Some (st, err, c', vs) \<Rightarrow>
          if err \<noteq> None \<or> st = WalkStop then Some (WalkStop, err, c' # cs, vs)
          else
            (case walkChildren fuel walker p (Suc i) cs of
               None \<Rightarrow> None
             | Some (st2, err2, cs', vs2) \<Rightarrow> Some (st2, err2, c' # cs', vs @ vs2)))"

definition Walk :: "nat \<Rightarrow> Walker \<Rightarrow> node \<Rightarrow> (error option \<times> node \<times> visit list) option" where
  "Walk fuel walker n =
     (case walkHelper fuel walker [] n of
        None \<Rightarrow> None
      | Some (status, err, n', vs) \<Rightarrow> Some (err, n', vs))"

text \<open>
  \<^verbatim>\<open>func (t *Transformer) Transform(doc *ast.Document, _ text.Reader, _ parser.Context)\<close>:
  the nil policies get their defaults, the document is walked with \<^verbatim>\<open>tr.Visit\<close>
  and the error of the walk is dropped. The result is the document after the pass.
\<close>

definition Transformer_tr :: "Transformer \<Rightarrow> transform" where
  "Transformer_tr t =
     \<lparr>Texter = (case T_Texter t of None \<Rightarrow> defaultTexter | Some x \<Rightarrow> x),
      Position = T_Position t,
      Attributer = (case T_Attributer t of None \<Rightarrow> defaultAttributer | Some a \<Rightarrow> a)\<rparr>"

definition Transformer_Transform :: "nat \<Rightarrow> Transformer \<Rightarrow> node \<Rightarrow> node option" where
  "Transformer_Transform fuel t doc =
     (case Walk fuel (transform_Visit (Transformer_tr t)) doc of
        None \<Rightarrow> None
      | Some (err, doc', vs) \<Rightarrow> Some doc')"

subsection \<open>The renderer\<close>

text \<open>
  \<^verbatim>\<open>func (r *Renderer) RenderNode(w util.BufWriter, _ []byte, node ast.Node, entering bool)\<close>.
  The sink \<^verbatim>\<open>w\<close> is the list of bytes written so far, and a write appends to it;
  the errors of the writes are dropped by the source. The type assertion
  \<^verbatim>\<open>node.(*Node)\<close> panics on a node that is not an anchor. The deferred write of the
  space runs when the function returns, after the closing tag. The result holds the
  status, the error, the sink and the node after the call.

  \<^verbatim>\<open>util.EscapeHTML\<close> and \<^verbatim>\<open>html.RenderAttributes\<close> are not among the source
  files: they are the parameters \<open>EscapeHTML\<close> (the escaped bytes) and
  \<open>RenderAttributes\<close> (the bytes written for the attribute list of the node).
\<close>

datatype panic = TypeAssertionPanic

abbreviation (input) dq :: char where
  "dq \<equiv> CHR 0x22"

definition Renderer_RenderNode ::
    "(bytes \<Rightarrow> bytes) \<Rightarrow> (Attribute list \<Rightarrow> bytes) \<Rightarrow> Renderer \<Rightarrow> bytes \<Rightarrow> bytes \<Rightarrow> node \<Rightarrow> bool \<Rightarrow>
       panic + (WalkStatus \<times> error option \<times> bytes \<times> node)" where
  "Renderer_RenderNode EscapeHTML RenderAttributes r w source node entering =
     (if (R_Position r = Before_Position) \<noteq> entering then Inr (WalkContinue, None, w, node)
      else
        (case kind node of
           KAnchor ID' level Value \<Rightarrow>
             if length ID' = 0 then Inr (WalkContinue, None, w, node)
             else
               let w = (if R_Position r = Before_Position then w else w @ '' '');
                   w = w @ ''<a'';
                   w = w @ RenderAttributes (attributes node);
                   w = w @ '' href='' @ [dq] @ ''#'';
                   w = w @ EscapeHTML ID';
                   w = w @ [dq] @ ''>'';
                   w = (if Unsafe r then w @ Value else w @ EscapeHTML Value);
                   w = w @ ''</a>'';
                   w = (if R_Position r = Before_Position then w @ '' '' else w)
               in Inr (WalkContinue, None, w, node)
         | _ \<Rightarrow> Inl TypeAssertionPanic))"

text \<open>
  Modelled from the spec: \<^verbatim>\<open>util.EscapeHTML\<close> and \<^verbatim>\<open>html.RenderAttributes\<close>
  are not among the source files. The spec gives a "markup-escaping helper: given raw
  bytes, returns bytes safe to embed in an element's text content or attribute value"
  and an "attribute serialization helper: given a node's attribute map, writes
  name="escaped-value" pairs to the sink". These instances replace the four
  markup-special bytes by their entities; the theorems on the renderer hold for every
  instance, and the instances serve to run the renderer on concrete nodes.
\<close>

definition EscapeHTMLByte :: "char \<Rightarrow> bytes" where
  "EscapeHTMLByte c =
     (if c = dq then ''&quot;''
      else if c = CHR ''&'' then ''&amp;''
      else if c = CHR ''<'' then ''&lt;''
      else if c = CHR ''>'' then ''&gt;''
      else [c])"

definition EscapeHTML :: "bytes \<Rightarrow> bytes" where
  "EscapeHTML v = concat (map EscapeHTMLByte v)"

definition RenderAttributes :: "Attribute list \<Rightarrow> bytes" where
  "RenderAttributes attrs =
     concat (map (\<lambda>(name, v).
       '' '' @ name @ ''='' @ [dq] @
       EscapeHTML (case v of BytesVal b \<Rightarrow> b | StringVal s \<Rightarrow> s | OtherVal \<Rightarrow> []) @ [dq]) attrs)"

subsection \<open>Nodes by their paths\<close>

text \<open>
  The node at a path, if there is one; whether a node is a heading or an anchor; and
  whether a path exists with no heading strictly above its end (the spec's tree model
  has no heading inside a heading, so that every heading of such a tree lies at the end
  of a path of this kind).
\<close>

fun subtree :: "node \<Rightarrow> path \<Rightarrow> node option" where
  "subtree n [] = Some n"
| "subtree n (i # p) = (if i < length (children n) then subtree (children n ! i) p else None)"

definition is_heading :: "node \<Rightarrow> bool" where
  "is_heading n = (case kind n of KHeading level \<Rightarrow> True | _ \<Rightarrow> False)"

definition is_anchor :: "node \<Rightarrow> bool" where
  "is_anchor n = (case kind n of KAnchor i l v \<Rightarrow> True | _ \<Rightarrow> False)"

fun outside_headings :: "node \<Rightarrow> path \<Rightarrow> bool" where
  "outside_headings n [] = True"
| "outside_headings n (i # p) =
     (\<not> is_heading n \<and> i < length (children n) \<and> outside_headings (children n ! i) p)"

fun depth :: "node \<Rightarrow> nat" and depth_list :: "node list \<Rightarrow> nat" where
  "depth (Node k as cs) = Suc (depth_list cs)"
| "depth_list [] = 0"
| "depth_list (c # cs) = max (depth c) (depth_list cs)"

text \<open>
  The tree after the walk with \<^const>\<open>transform_Visit\<close>, and the visits of that walk,
  by recursion on the tree: a heading is transformed and its children are passed over;
  any other node keeps its fields and its children are walked in order. \<open>wdepth\<close> is
  the depth the walk reaches.
\<close>

fun decorate :: "transform \<Rightarrow> node \<Rightarrow> node" where
  "decorate t (Node k as cs) =
     (if is_heading (Node k as cs) then transform_transform t (Node k as cs)
      else Node k as (map (decorate t) cs))"

fun visits :: "path \<Rightarrow> node \<Rightarrow> visit list"
  and visits_list :: "path \<Rightarrow> nat \<Rightarrow> node list \<Rightarrow> visit list" where
  "visits p (Node k as cs) =
     (if is_heading (Node k as cs) then [(p, True), (p, False)]
      else (p, True) # visits_list p 0 cs @ [(p, False)])"
| "visits_list p i [] = []"
| "visits_list p i (c # cs) = visits (p @ [i]) c @ visits_list p (Suc i) cs"

fun wdepth :: "node \<Rightarrow> nat" and wdepth_list :: "node list \<Rightarrow> nat" where
  "wdepth (Node k as cs) = (if is_heading (Node k as cs) then 1 else Suc (wdepth_list cs))"
| "wdepth_list [] = 0"
| "wdepth_list (c # cs) = max (wdepth c) (wdepth_list cs)"

subsection \<open>Example inputs\<close>

text \<open>
  A document with a paragraph and a level-2 heading whose identifier is \<open>intro\<close>, the
  transformer and the renderer with their zero values (default policies, position
  \<^const>\<open>After\<close>, escaping on), an anchor node whose text holds markup, and a document
  whose heading has an identifier attribute that is an empty byte slice.
\<close>

definition example_heading :: node where
  "example_heading = Node (KHeading 2) [(''id'', BytesVal ''intro'')] [Node (KOther ''Text'') [] []]"

definition example_doc :: node where
  "example_doc = Node (KOther ''Document'') [] [Node (KOther ''Paragraph'') [] [], example_heading]"

definition example_Transformer :: Transformer where
  "example_Transformer = \<lparr>T_Texter = None, T_Position = After, T_Attributer = None\<rparr>"

definition example_Renderer :: Renderer where
  "example_Renderer = \<lparr>R_Position = After, Unsafe = False\<rparr>"

definition example_anchor :: node where
  "example_anchor = Node (KAnchor ''intro'' 2 ''<#>'') [(''class'', BytesVal ''anchor'')] []"

definition empty_id_doc :: node where
  "empty_id_doc = Node (KOther ''Document'') [] [Node (KHeading 1) [(''id'', BytesVal [])] []]"

section \<open>Lemmas\<close>

subsection \<open>The walk with the visitor of the transform\<close>

lemma transform_Visit_heading:
  "is_heading n \<Longrightarrow> transform_Visit t n True = (WalkSkipChildren, None, transform_transform t n)"
  by (auto simp: transform_Visit_def is_heading_def split: node_kind.splits)

lemma transform_Visit_other:
  "\<not> is_heading n \<Longrightarrow> transform_Visit t n True = (WalkContinue, None, n)"
  by (auto simp: transform_Visit_def is_heading_def split: node_kind.splits)

lemma transform_Visit_exit: "transform_Visit t n False = (WalkContinue, None, n)"
  by (simp add: transform_Visit_def)

lemma wdepth_pos: "0 < wdepth n"
  by (cases n) simp

lemma walkChildren_Visit:
  assumes IH: "\<And>p n. wdepth n \<le> fuel \<Longrightarrow>
      walkHelper fuel (transform_Visit t) p n = Some (WalkContinue, None, decorate t n, visits p n)"
  shows "wdepth_list cs \<le> fuel \<Longrightarrow>
    walkChildren fuel (transform_Visit t) p i cs =
      Some (WalkContinue, None, map (decorate t) cs, visits_list p i cs)"
  by (induction cs arbitrary: i) (simp_all add: IH)

lemma walkHelper_Visit:
  "wdepth n \<le> fuel \<Longrightarrow>
     walkHelper fuel (transform_Visit t) p n = Some (WalkContinue, None, decorate t n, visits p n)"
proof (induction fuel arbitrary: p n)
  case 0
  then show ?case using wdepth_pos [of n] by simp
next
  case (Suc fuel)
  obtain k as cs where n: "n = Node k as cs" by (cases n)
  show ?case
  proof (cases "is_heading n")
    case True
    then show ?thesis
      by (simp add: n transform_Visit_heading transform_Visit_exit)
  next
    case False
    with Suc.prems have "wdepth_list cs \<le> fuel" by (simp add: n)
    then have "walkChildren fuel (transform_Visit t) p 0 cs =
      Some (WalkContinue, None, map (decorate t) cs, visits_list p 0 cs)"
      using walkChildren_Visit [of fuel t cs p 0] Suc.IH by blast
    with False show ?thesis
      by (simp add: n transform_Visit_other transform_Visit_exit)
  qed
qed

lemma foldl_SetAttribute_kind:
  "kind (foldl (\<lambda>n (name, value). SetAttributeString n name (BytesVal value)) n0 as) = kind n0"
  by (induction as arbitrary: n0) (simp_all add: SetAttributeString_def split_def)

lemma foldl_SetAttribute_children:
  "children (foldl (\<lambda>n (name, value). SetAttributeString n name (BytesVal value)) n0 as) = children n0"
  by (induction as arbitrary: n0) (simp_all add: SetAttributeString_def split_def)

lemma kind_new_anchor: "kind (new_anchor i l v as) = KAnchor i l v"
  by (simp add: new_anchor_def foldl_SetAttribute_kind)

lemma children_new_anchor: "children (new_anchor i l v as) = []"
  by (simp add: new_anchor_def foldl_SetAttribute_children)

lemma is_anchor_new_anchor: "is_anchor (new_anchor i l v as)"
  by (simp add: is_anchor_def kind_new_anchor)

lemma kind_AppendChild: "kind (AppendChild h n) = kind h"
  and attributes_AppendChild: "attributes (AppendChild h n) = attributes h"
  by (simp_all add: AppendChild_def)

lemma kind_InsertBefore: "kind (InsertBefore h r n) = kind h"
  and attributes_InsertBefore: "attributes (InsertBefore h r n) = attributes h"
  by (simp_all add: InsertBefore_def AppendChild_def split: option.splits)

lemma kind_InsertAfter: "kind (InsertAfter h r n) = kind h"
  and attributes_InsertAfter: "attributes (InsertAfter h r n) = attributes h"
  by (simp_all add: InsertAfter_def kind_InsertBefore attributes_InsertBefore AppendChild_def
      split: option.splits)

lemma kind_transform_transform: "kind (transform_transform t h) = kind h"
  by (simp add: transform_transform_def Let_def kind_AppendChild kind_InsertBefore kind_InsertAfter
      split: node_kind.splits option.splits attr_value.splits)

lemma attributes_transform_transform: "attributes (transform_transform t h) = attributes h"
  by (simp add: transform_transform_def Let_def attributes_AppendChild attributes_InsertBefore
      attributes_InsertAfter split: node_kind.splits option.splits attr_value.splits)

lemma insert_first: "children h \<noteq> [] \<Longrightarrow> children (InsertBefore h (FirstChild h) n) = n # children h"
  by (simp add: InsertBefore_def FirstChild_def)

lemma insert_last: "children h \<noteq> [] \<Longrightarrow> children (InsertAfter h (LastChild h) n) = children h @ [n]"
  by (simp add: InsertAfter_def LastChild_def NextSibling_def InsertBefore_def AppendChild_def)

lemma transform_skip:
  "kind h = KHeading level \<Longrightarrow>
   (\<forall>id'. AttributeString h ''id'' = Some (BytesVal id') \<longrightarrow> Texter t \<lparr>Level = level, ID = id'\<rparr> = []) \<Longrightarrow>
   transform_transform t h = h"
  by (simp add: transform_transform_def Let_def split: option.splits attr_value.splits)

lemma children_transform_insert:
  assumes "kind h = KHeading level" "AttributeString h ''id'' = Some (BytesVal id')"
    "Texter t \<lparr>Level = level, ID = id'\<rparr> \<noteq> []"
  shows "children (transform_transform t h) =
    (if children h = [] then [new_anchor id' level (Texter t \<lparr>Level = level, ID = id'\<rparr>)
               (Attributer t \<lparr>Level = level, ID = id'\<rparr>)]
     else if Position t = Before_Position then new_anchor id' level (Texter t \<lparr>Level = level, ID = id'\<rparr>)
               (Attributer t \<lparr>Level = level, ID = id'\<rparr>) # children h
     else children h @ [new_anchor id' level (Texter t \<lparr>Level = level, ID = id'\<rparr>)
               (Attributer t \<lparr>Level = level, ID = id'\<rparr>)])"
  using assms
  by (simp add: transform_transform_def Let_def ChildCount_def insert_first insert_last AppendChild_def)

lemma is_heading_transform: "is_heading (transform_transform t h) = is_heading h"
  by (simp add: is_heading_def kind_transform_transform)

lemma decorate_heading: "is_heading n \<Longrightarrow> decorate t n = transform_transform t n"
  by (cases n) simp

lemma decorate_other:
  "\<not> is_heading n \<Longrightarrow> decorate t n = Node (kind n) (attributes n) (map (decorate t) (children n))"
  by (cases n) simp

lemma kind_decorate: "kind (decorate t n) = kind n"
  by (cases "is_heading n") (simp_all add: decorate_heading decorate_other kind_transform_transform)

lemma attributes_decorate: "attributes (decorate t n) = attributes n"
  by (cases "is_heading n") (simp_all add: decorate_heading decorate_other attributes_transform_transform)

lemma is_heading_decorate: "is_heading (decorate t n) = is_heading n"
  by (simp add: is_heading_def kind_decorate)

lemma subtree_decorate:
  "outside_headings n p \<Longrightarrow> subtree n p = Some m \<Longrightarrow> subtree (decorate t n) p = Some (decorate t m)"
  by (induction p arbitrary: n) (simp_all add: decorate_other)

lemma outside_headings_subtree: "outside_headings n p \<Longrightarrow> \<exists>m. subtree n p = Some m"
  by (induction p arbitrary: n) simp_all

lemma is_heading_Node: "is_heading (Node (kind n) as cs) = is_heading n"
  by (simp add: is_heading_def)

lemma is_heading_Node': "is_heading (Node k as cs) = is_heading (Node k as' cs')"
  by (simp add: is_heading_def)

lemma outside_headings_decorate: "outside_headings (decorate t n) p = outside_headings n p"
proof (induction p arbitrary: n)
  case Nil
  show ?case by simp
next
  case (Cons i p)
  show ?case
  proof (cases "is_heading n")
    case True
    then show ?thesis by (simp add: is_heading_decorate)
  next
    case False
    then show ?thesis
      using Cons.IH [of "children n ! i"]
      by (auto simp: decorate_other is_heading_Node)
  qed
qed

lemma wdepth_heading: "is_heading n \<Longrightarrow> wdepth n = 1"
  by (cases n) simp

lemma wdepth_other: "\<not> is_heading n \<Longrightarrow> wdepth n = Suc (wdepth_list (children n))"
  by (cases n) simp

lemma wdepth_list_decorate:
  "(\<And>c. c \<in> set cs \<Longrightarrow> wdepth (decorate t c) = wdepth c) \<Longrightarrow>
   wdepth_list (map (decorate t) cs) = wdepth_list cs"
  by (induction cs) simp_all

lemma wdepth_decorate: "wdepth (decorate t n) = wdepth n"
proof (induction t n rule: decorate.induct)
  case (1 t k as cs)
  show ?case
  proof (cases "is_heading (Node k as cs)")
    case True
    then have "is_heading (decorate t (Node k as cs))" by (simp only: is_heading_decorate)
    then show ?thesis using True by (simp only: wdepth_heading)
  next
    case False
    then have "wdepth_list (map (decorate t) cs) = wdepth_list cs"
      using "1.IH" by (intro wdepth_list_decorate) simp
    then show ?thesis using False is_heading_Node' [of k as "map (decorate t) cs" as cs] by simp
  qed
qed

lemma wdepth_le_depth: "wdepth n \<le> depth n"
  and wdepth_list_le_depth_list: "wdepth_list cs \<le> depth_list cs"
  by (induction n and cs rule: wdepth_wdepth_list.induct) auto

lemma Walk_Visit:
  "wdepth doc \<le> fuel \<Longrightarrow>
   Walk fuel (transform_Visit t) doc = Some (None, decorate t doc, visits [] doc)"
  by (simp add: Walk_def walkHelper_Visit)

lemma Transform_decorate:
  "wdepth doc \<le> fuel \<Longrightarrow> Transformer_Transform fuel T doc = Some (decorate (Transformer_tr T) doc)"
  by (simp add: Transformer_Transform_def Walk_Visit)

lemma visits_outside:
  "(q, e) \<in> set (visits p n) \<Longrightarrow> \<exists>r. q = p @ r \<and> outside_headings n r"
  and visits_list_outside:
  "(q, e) \<in> set (visits_list p i cs) \<Longrightarrow>
     \<exists>j r. j < length cs \<and> q = p @ (i + j) # r \<and> outside_headings (cs ! j) r"
proof (induction p n and p i cs arbitrary: q e and q e rule: visits_visits_list.induct)
  case (1 p k as cs)
  show ?case
  proof (cases "is_heading (Node k as cs)")
    case True
    with "1.prems" have "q = p" by auto
    then show ?thesis by (intro exI [of _ "[]"]) simp
  next
    case False
    with "1.prems" have "q = p \<or> (q, e) \<in> set (visits_list p 0 cs)" by auto
    then show ?thesis
    proof
      assume "q = p"
      then show ?thesis by (intro exI [of _ "[]"]) simp
    next
      assume "(q, e) \<in> set (visits_list p 0 cs)"
      with "1.IH" False obtain j r where
        "j < length cs" "q = p @ (0 + j) # r" "outside_headings (cs ! j) r" by blast
      with False show ?thesis by (intro exI [of _ "j # r"]) simp
    qed
  qed
next
  case (2 p i)
  then show ?case by simp
next
  case (3 p i c cs)
  from "3.prems" have "(q, e) \<in> set (visits (p @ [i]) c) \<or> (q, e) \<in> set (visits_list p (Suc i) cs)"
    by auto
  then show ?case
  proof
    assume "(q, e) \<in> set (visits (p @ [i]) c)"
    with "3.IH"(1) obtain r where "q = (p @ [i]) @ r" "outside_headings c r" by blast
    then show ?thesis by (intro exI [of _ 0] exI [of _ r]) simp
  next
    assume "(q, e) \<in> set (visits_list p (Suc i) cs)"
    with "3.IH"(2) obtain j r where
      "j < length cs" "q = p @ (Suc i + j) # r" "outside_headings (cs ! j) r" by blast
    then show ?thesis by (intro exI [of _ "Suc j"] exI [of _ r]) simp
  qed
qed

lemma outside_visits:
  "outside_headings n r \<Longrightarrow> (p @ r, e) \<in> set (visits p n)"
  and outside_visits_list:
  "j < length cs \<Longrightarrow> outside_headings (cs ! j) r \<Longrightarrow> (p @ (i + j) # r, e) \<in> set (visits_list p i cs)"
proof (induction p n and p i cs arbitrary: r e and j r e rule: visits_visits_list.induct)
  case (1 p k as cs)
  show ?case
  proof (cases r)
    case Nil
    then show ?thesis by (cases e) auto
  next
    case (Cons j r')
    with "1.prems" have nh: "\<not> is_heading (Node k as cs)" and j: "j < length cs"
      and o: "outside_headings (cs ! j) r'" by simp_all
    from "1.IH" [OF nh j o, of e] Cons nh show ?thesis by simp
  qed
next
  case (2 p i)
  then show ?case by simp
next
  case (3 p i c cs)
  show ?case
  proof (cases j)
    case 0
    with "3.prems" have "outside_headings c r" by simp
    from "3.IH"(1) [OF this, of e] 0 show ?thesis by simp
  next
    case (Suc j')
    with "3.prems" have "j' < length cs" "outside_headings (cs ! j') r" by simp_all
    from "3.IH"(2) [OF this, of e] Suc show ?thesis by simp
  qed
qed

lemma outside_headings_prefix:
  "outside_headings n (q @ i # r) \<Longrightarrow> subtree n q = Some h \<Longrightarrow> \<not> is_heading h"
  by (induction q arbitrary: n) (auto split: if_splits)

subsection \<open>One run of the transform\<close>

lemma is_heading_kind: "kind h = KHeading level \<Longrightarrow> is_heading h"
  by (simp add: is_heading_def)

lemma Transform_heading:
  assumes "depth doc \<le> fuel" "outside_headings doc p" "subtree doc p = Some h" "is_heading h"
  shows "Transformer_Transform fuel T doc = Some (decorate (Transformer_tr T) doc)"
    and "subtree (decorate (Transformer_tr T) doc) p = Some (transform_transform (Transformer_tr T) h)"
proof -
  from assms(1) have "wdepth doc \<le> fuel" using wdepth_le_depth [of doc] by simp
  then show "Transformer_Transform fuel T doc = Some (decorate (Transformer_tr T) doc)"
    by (rule Transform_decorate)
  from subtree_decorate [OF assms(2,3)] assms(4)
  show "subtree (decorate (Transformer_tr T) doc) p = Some (transform_transform (Transformer_tr T) h)"
    by (simp add: decorate_heading)
qed

lemma children_transform_cases:
  assumes "is_heading h"
  shows "children (transform_transform t h) = children h \<or>
    (\<exists>a. is_anchor a \<and> children a = [] \<and>
       (children (transform_transform t h) = a # children h \<or>
        children (transform_transform t h) = children h @ [a]))"
proof -
  from assms obtain level where k: "kind h = KHeading level"
    by (auto simp: is_heading_def split: node_kind.splits)
  show ?thesis
  proof (cases "\<exists>id'. AttributeString h ''id'' = Some (BytesVal id') \<and>
               Texter t \<lparr>Level = level, ID = id'\<rparr> \<noteq> []")
    case True
    then obtain id' where i: "AttributeString h ''id'' = Some (BytesVal id')"
      and x: "Texter t \<lparr>Level = level, ID = id'\<rparr> \<noteq> []" by blast
    let ?a = "new_anchor id' level (Texter t \<lparr>Level = level, ID = id'\<rparr>)
               (Attributer t \<lparr>Level = level, ID = id'\<rparr>)"
    from children_transform_insert [OF k i x]
    have "children (transform_transform t h) = ?a # children h \<or>
          children (transform_transform t h) = children h @ [?a]"
      by (simp split: if_splits)
    with is_anchor_new_anchor [of id' level _ _] children_new_anchor [of id' level _ _]
    show ?thesis by blast
  next
    case False
    then have "transform_transform t h = h" using k by (intro transform_skip) auto
    then show ?thesis by simp
  qed
qed

subsection \<open>The renderer, case by case\<close>

lemma RenderNode_other_half:
  "(R_Position r = Before_Position) \<noteq> entering \<Longrightarrow>
   Renderer_RenderNode esc ra r w src node entering = Inr (WalkContinue, None, w, node)"
  by (simp add: Renderer_RenderNode_def)

lemma RenderNode_empty_ID:
  "kind node = KAnchor [] level Value \<Longrightarrow>
   Renderer_RenderNode esc ra r w src node entering = Inr (WalkContinue, None, w, node)"
  by (simp add: Renderer_RenderNode_def)

lemma RenderNode_quiet:
  "kind node = KAnchor ID' level Value \<Longrightarrow>
   \<not> ((R_Position r = Before_Position) = entering \<and> ID' \<noteq> []) \<Longrightarrow>
   Renderer_RenderNode esc ra r w src node entering = Inr (WalkContinue, None, w, node)"
  using RenderNode_other_half [of r entering esc ra w src node]
    RenderNode_empty_ID [of node level Value esc ra r w src entering]
  by auto

lemma RenderNode_emit:
  "kind node = KAnchor ID' level Value \<Longrightarrow> (R_Position r = Before_Position) = entering \<Longrightarrow>
   ID' \<noteq> [] \<Longrightarrow>
   Renderer_RenderNode esc ra r w src node entering =
     Inr (WalkContinue, None,
       w @ (if R_Position r = Before_Position then [] else '' '') @
         ''<a'' @ ra (attributes node) @ '' href='' @ [dq] @ ''#'' @ esc ID' @ [dq] @ ''>'' @
         (if Unsafe r then Value else esc Value) @ ''</a>'' @
         (if R_Position r = Before_Position then '' '' else []), node)"
  by (simp add: Renderer_RenderNode_def Let_def)

lemma RenderNode_anchor_returns:
  assumes "kind node = KAnchor ID' level Value"
  shows "\<exists>out. Renderer_RenderNode esc ra r w src node entering =
     Inr (WalkContinue, None, w @ out, node)"
proof (cases "(R_Position r = Before_Position) = entering \<and> ID' \<noteq> []")
  case True
  then have m: "(R_Position r = Before_Position) = entering" and i: "ID' \<noteq> []" by simp_all
  from RenderNode_emit [OF assms m i, of esc ra w src] show ?thesis by blast
next
  case False
  from RenderNode_quiet [OF assms False, of esc ra w src] show ?thesis
    by (intro exI [of _ "[]"]) simp
qed

subsection \<open>Facts about the example inputs\<close>

lemma example_facts:
  "depth example_doc \<le> 3" "outside_headings example_doc [1]"
  "subtree example_doc [1] = Some example_heading" "kind example_heading = KHeading 2"
  "AttributeString example_heading ''id'' = Some (BytesVal ''intro'')"
  "Texter (Transformer_tr example_Transformer) \<lparr>Level = 2, ID = ''intro''\<rparr> \<noteq> []"
  by (simp_all add: example_doc_def example_heading_def is_heading_def AttributeString_def
      Transformer_tr_def example_Transformer_def defaultTexter_def Text_def)

lemma example_more_facts:
  "children example_heading \<noteq> []" "T_Position example_Transformer \<noteq> Before_Position"
  "is_heading example_heading"
  by (simp_all add: example_heading_def example_Transformer_def After_def Before_Position_def
      is_heading_def)

lemma example_render_facts:
  "kind example_anchor = KAnchor ''intro'' 2 ''<#>''"
  "(R_Position example_Renderer = Before_Position) = False"
  "(R_Position example_Renderer = Before_Position) \<noteq> True"
  "''intro'' \<noteq> []"
  by (simp_all add: example_anchor_def example_Renderer_def After_def Before_Position_def)

section \<open>The transform pass\<close>

text \<open>
  Claim C1, as the code has it. Take any heading of the document that does not lie inside
  another heading (the spec's tree model has no nested headings). One transform pass
  inserts an anchor into it if and only if its \<open>id\<close> attribute is present and is a byte
  slice, empty or not, and the text policy returns a non-empty text for it. An eligible
  heading gets exactly one new child, an anchor, put first or last; any other heading
  keeps its children as they were.
\<close>

theorem Transform_inserts_iff:
  assumes "depth doc \<le> fuel" "outside_headings doc p" "subtree doc p = Some h"
    "kind h = KHeading level"
  shows "\<exists>doc' h'. Transformer_Transform fuel T doc = Some doc' \<and> subtree doc' p = Some h' \<and>
     (if \<exists>id'. AttributeString h ''id'' = Some (BytesVal id') \<and>
               Texter (Transformer_tr T) \<lparr>Level = level, ID = id'\<rparr> \<noteq> []
      then \<exists>a. is_anchor a \<and> (children h' = a # children h \<or> children h' = children h @ [a])
      else children h' = children h)"
proof -
  let ?t = "Transformer_tr T"
  let ?h' = "transform_transform ?t h"
  from assms(4) have hd: "is_heading h" by (rule is_heading_kind)
  note run = Transform_heading [OF assms(1-3) hd, of T]
  have "if \<exists>id'. AttributeString h ''id'' = Some (BytesVal id') \<and>
               Texter ?t \<lparr>Level = level, ID = id'\<rparr> \<noteq> []
      then \<exists>a. is_anchor a \<and> (children ?h' = a # children h \<or> children ?h' = children h @ [a])
      else children ?h' = children h"
  proof (cases "\<exists>id'. AttributeString h ''id'' = Some (BytesVal id') \<and>
               Texter ?t \<lparr>Level = level, ID = id'\<rparr> \<noteq> []")
    case True
    then obtain id' where i: "AttributeString h ''id'' = Some (BytesVal id')"
      and x: "Texter ?t \<lparr>Level = level, ID = id'\<rparr> \<noteq> []" by blast
    let ?a = "new_anchor id' level (Texter ?t \<lparr>Level = level, ID = id'\<rparr>)
               (Attributer ?t \<lparr>Level = level, ID = id'\<rparr>)"
    from children_transform_insert [OF assms(4) i x]
    have "children ?h' = ?a # children h \<or> children ?h' = children h @ [?a]"
      by (simp split: if_splits)
    with is_anchor_new_anchor have
      "\<exists>a. is_anchor a \<and> (children ?h' = a # children h \<or> children ?h' = children h @ [a])"
      by blast
    with True show ?thesis by simp
  next
    case False
    then have "transform_transform ?t h = h" using assms(4) by (intro transform_skip) auto
    with False show ?thesis by simp
  qed
  with run show ?thesis by blast
qed

text \<open>The example document: its heading is eligible and gets one anchor.\<close>

theorem Transform_inserts_iff_witness:
  "depth example_doc \<le> 3 \<and> outside_headings example_doc [1] \<and>
   subtree example_doc [1] = Some example_heading \<and> kind example_heading = KHeading 2 \<and>
   (\<exists>doc' h'. Transformer_Transform 3 example_Transformer example_doc = Some doc' \<and>
      subtree doc' [1] = Some h' \<and>
      (\<exists>a. is_anchor a \<and>
         (children h' = a # children example_heading \<or> children h' = children example_heading @ [a])))"
proof -
  have "\<exists>id'. AttributeString example_heading ''id'' = Some (BytesVal id') \<and>
     Texter (Transformer_tr example_Transformer) \<lparr>Level = 2, ID = id'\<rparr> \<noteq> []"
    using example_facts(5,6) by blast
  with Transform_inserts_iff [OF example_facts(1-4), of example_Transformer] example_facts(1-4)
  show ?thesis by simp
qed

text \<open>
  Claim C1 as stated asks for a non-empty identifier. A heading whose \<open>id\<close> attribute is
  the empty byte slice still gets its anchor: the transform never looks at the length of
  the identifier (only the renderer does).
\<close>

theorem Transform_empty_id_counterexample:
  "AttributeString (Node (KHeading 1) [(''id'', BytesVal [])] []) ''id'' = Some (BytesVal []) \<and>
   Transformer_Transform 2 example_Transformer empty_id_doc =
     Some (Node (KOther ''Document'') []
       [Node (KHeading 1) [(''id'', BytesVal [])]
         [Node (KAnchor [] 1 [CHR 0xC2, CHR 0xB6]) [(''class'', BytesVal ''anchor'')] []]])"
  by (simp add: empty_id_doc_def example_Transformer_def Transformer_Transform_def Walk_def
      transform_Visit_def transform_transform_def AttributeString_def Transformer_tr_def
      defaultTexter_def defaultAttributer_def Text_def Attributes_def new_anchor_def
      SetAttributeString_def ChildCount_def AppendChild_def numeral_2_eq_2)

text \<open>
  Claim C2. A heading that received an anchor: if it had no children, the anchor is its
  only child; otherwise the anchor is the first child when the position is
  \<open>Before\<close> and the last child for any other position (\<open>After\<close>), and the children
  it had follow or precede the anchor in their old order.
\<close>

theorem Transform_anchor_position:
  assumes "depth doc \<le> fuel" "outside_headings doc p" "subtree doc p = Some h"
    "kind h = KHeading level" "AttributeString h ''id'' = Some (BytesVal id')"
    "Texter (Transformer_tr T) \<lparr>Level = level, ID = id'\<rparr> \<noteq> []"
  shows "\<exists>doc' h' a. Transformer_Transform fuel T doc = Some doc' \<and> subtree doc' p = Some h' \<and>
     kind a = KAnchor id' level (Texter (Transformer_tr T) \<lparr>Level = level, ID = id'\<rparr>) \<and>
     (if children h = [] then children h' = [a]
      else if T_Position T = Before_Position then children h' = a # children h
      else children h' = children h @ [a])"
proof -
  let ?t = "Transformer_tr T"
  let ?a = "new_anchor id' level (Texter ?t \<lparr>Level = level, ID = id'\<rparr>)
               (Attributer ?t \<lparr>Level = level, ID = id'\<rparr>)"
  from assms(4) have hd: "is_heading h" by (rule is_heading_kind)
  note run = Transform_heading [OF assms(1-3) hd, of T]
  have pos: "Position ?t = T_Position T" by (simp add: Transformer_tr_def)
  from children_transform_insert [OF assms(4-6)] pos
  have "if children h = [] then children (transform_transform ?t h) = [?a]
      else if T_Position T = Before_Position then children (transform_transform ?t h) = ?a # children h
      else children (transform_transform ?t h) = children h @ [?a]"
    by simp
  with run kind_new_anchor [of id' level _ _] show ?thesis by blast
qed

text \<open>The example heading has a child and the position is \<open>After\<close>: the anchor is last.\<close>

theorem Transform_anchor_position_witness:
  "depth example_doc \<le> 3 \<and> outside_headings example_doc [1] \<and>
   subtree example_doc [1] = Some example_heading \<and> kind example_heading = KHeading 2 \<and>
   AttributeString example_heading ''id'' = Some (BytesVal ''intro'') \<and>
   Texter (Transformer_tr example_Transformer) \<lparr>Level = 2, ID = ''intro''\<rparr> \<noteq> [] \<and>
   (\<exists>doc' h' a. Transformer_Transform 3 example_Transformer example_doc = Some doc' \<and>
      subtree doc' [1] = Some h' \<and>
      kind a = KAnchor ''intro'' 2
        (Texter (Transformer_tr example_Transformer) \<lparr>Level = 2, ID = ''intro''\<rparr>) \<and>
      children h' = children example_heading @ [a])"
  using Transform_anchor_position [OF example_facts] example_facts example_more_facts
  by simp

text \<open>
  Claim C6. The transform is not idempotent: for a heading whose identifier attribute is
  a byte slice and whose policy text is non-empty, a second pass over the result of the
  first inserts a second anchor, on the same side, so that the heading has two more
  children than it started with, both anchors.
\<close>

theorem Transform_twice_two_anchors:
  assumes "depth doc \<le> fuel" "outside_headings doc p" "subtree doc p = Some h"
    "kind h = KHeading level" "AttributeString h ''id'' = Some (BytesVal id')"
    "Texter (Transformer_tr T) \<lparr>Level = level, ID = id'\<rparr> \<noteq> []"
  shows "\<exists>doc1 doc2 h2 a. Transformer_Transform fuel T doc = Some doc1 \<and>
     Transformer_Transform fuel T doc1 = Some doc2 \<and> subtree doc2 p = Some h2 \<and> is_anchor a \<and>
     (if T_Position T = Before_Position then children h2 = a # a # children h
      else children h2 = children h @ [a, a])"
proof -
  let ?t = "Transformer_tr T"
  let ?a = "new_anchor id' level (Texter ?t \<lparr>Level = level, ID = id'\<rparr>)
               (Attributer ?t \<lparr>Level = level, ID = id'\<rparr>)"
  let ?h1 = "transform_transform ?t h"
  let ?doc1 = "decorate ?t doc"
  from assms(4) have hd: "is_heading h" by (rule is_heading_kind)
  have pos: "Position ?t = T_Position T" by (simp add: Transformer_tr_def)
  from assms(1) have w: "wdepth doc \<le> fuel" using wdepth_le_depth [of doc] by simp
  then have run1: "Transformer_Transform fuel T doc = Some ?doc1" by (rule Transform_decorate)
  from w have "wdepth ?doc1 \<le> fuel" by (simp add: wdepth_decorate)
  then have run2: "Transformer_Transform fuel T ?doc1 = Some (decorate ?t ?doc1)"
    by (rule Transform_decorate)
  have s1: "subtree ?doc1 p = Some ?h1"
    using subtree_decorate [OF assms(2,3)] hd by (simp add: decorate_heading)
  have o1: "outside_headings ?doc1 p" using assms(2) by (simp add: outside_headings_decorate)
  have hd1: "is_heading ?h1" using hd by (simp add: is_heading_transform)
  have s2: "subtree (decorate ?t ?doc1) p = Some (transform_transform ?t ?h1)"
    using subtree_decorate [OF o1 s1] hd1 by (simp add: decorate_heading)
  have k1: "kind ?h1 = KHeading level" using assms(4) by (simp add: kind_transform_transform)
  have i1: "AttributeString ?h1 ''id'' = Some (BytesVal id')"
    using assms(5) by (simp add: AttributeString_def attributes_transform_transform)
  have c1: "children ?h1 = (if children h = [] then [?a]
       else if T_Position T = Before_Position then ?a # children h else children h @ [?a])"
    using children_transform_insert [OF assms(4-6)] pos by simp
  have c2: "children (transform_transform ?t ?h1) = (if children ?h1 = [] then [?a]
       else if T_Position T = Before_Position then ?a # children ?h1 else children ?h1 @ [?a])"
    using children_transform_insert [OF k1 i1 assms(6)] pos by simp
  have "if T_Position T = Before_Position
      then children (transform_transform ?t ?h1) = ?a # ?a # children h
      else children (transform_transform ?t ?h1) = children h @ [?a, ?a]"
    by (simp add: c2 c1)
  with run1 run2 s2 is_anchor_new_anchor [of id' level _ _] show ?thesis by blast
qed

text \<open>Two passes over the example document leave two anchors after the heading text.\<close>

theorem Transform_twice_two_anchors_witness:
  "depth example_doc \<le> 3 \<and> outside_headings example_doc [1] \<and>
   subtree example_doc [1] = Some example_heading \<and> kind example_heading = KHeading 2 \<and>
   AttributeString example_heading ''id'' = Some (BytesVal ''intro'') \<and>
   Texter (Transformer_tr example_Transformer) \<lparr>Level = 2, ID = ''intro''\<rparr> \<noteq> [] \<and>
   (\<exists>doc1 doc2 h2 a. Transformer_Transform 3 example_Transformer example_doc = Some doc1 \<and>
      Transformer_Transform 3 example_Transformer doc1 = Some doc2 \<and>
      subtree doc2 [1] = Some h2 \<and> is_anchor a \<and> children h2 = children example_heading @ [a, a])"
  using Transform_twice_two_anchors [OF example_facts] example_facts example_more_facts
  by simp

text \<open>
  Claim C7. The walk of the transform ends without an error, and for every heading of
  the document no node below it is ever visited, on entry or on exit: every visit is to
  a node of the document that lies outside all headings. The anchor a heading has just
  received is a child of that heading, so the pass never visits it. The headings that lie
  outside other headings are themselves visited, on entry and on exit.
\<close>

theorem Walk_skips_heading_subtrees:
  assumes "depth doc \<le> fuel"
  shows "\<exists>doc' vs. Walk fuel (transform_Visit t) doc = Some (None, doc', vs) \<and>
     (\<forall>q h. subtree doc q = Some h \<and> is_heading h \<longrightarrow>
        (\<forall>i r e. (q @ i # r, e) \<notin> set vs) \<and>
        (outside_headings doc q \<longrightarrow> (q, True) \<in> set vs \<and> (q, False) \<in> set vs)) \<and>
     (\<forall>q e. (q, e) \<in> set vs \<longrightarrow> outside_headings doc q)"
proof -
  from assms have "wdepth doc \<le> fuel" using wdepth_le_depth [of doc] by simp
  then have run: "Walk fuel (transform_Visit t) doc = Some (None, decorate t doc, visits [] doc)"
    by (rule Walk_Visit)
  have a: "(q @ i # r, e) \<notin> set (visits [] doc)" if "subtree doc q = Some h" "is_heading h"
    for q h i r e
  proof
    assume "(q @ i # r, e) \<in> set (visits [] doc)"
    from visits_outside [OF this] have "outside_headings doc (q @ i # r)" by simp
    from outside_headings_prefix [OF this that(1)] that(2) show False by simp
  qed
  have b: "(q, e) \<in> set (visits [] doc)" if "outside_headings doc q" for q e
    using outside_visits [OF that, of "[]" e] by simp
  have c: "outside_headings doc q" if "(q, e) \<in> set (visits [] doc)" for q e
    using visits_outside [OF that] by simp
  from run a b c show ?thesis by blast
qed

text \<open>
  In the example document the heading at path \<open>[1]\<close> is visited, and neither its text
  child at \<open>[1, 0]\<close> nor the place \<open>[1, 1]\<close> where the anchor lands is.
\<close>

theorem Walk_skips_heading_subtrees_witness:
  "depth example_doc \<le> 3 \<and> subtree example_doc [1] = Some example_heading \<and>
   is_heading example_heading \<and> outside_headings example_doc [1] \<and>
   (\<exists>doc' vs. Walk 3 (transform_Visit (Transformer_tr example_Transformer)) example_doc =
        Some (None, doc', vs) \<and>
      ([1], True) \<in> set vs \<and> ([1], False) \<in> set vs \<and>
      ([1, 0], True) \<notin> set vs \<and> ([1, 1], True) \<notin> set vs)"
proof -
  from Walk_skips_heading_subtrees [OF example_facts(1), of "Transformer_tr example_Transformer"]
  obtain doc' vs where
    run: "Walk 3 (transform_Visit (Transformer_tr example_Transformer)) example_doc =
        Some (None, doc', vs)"
    and skip: "\<forall>q h. subtree example_doc q = Some h \<and> is_heading h \<longrightarrow>
        (\<forall>i r e. (q @ i # r, e) \<notin> set vs) \<and>
        (outside_headings example_doc q \<longrightarrow> (q, True) \<in> set vs \<and> (q, False) \<in> set vs)"
    by blast
  from skip example_facts(2,3) example_more_facts(3)
  have a: "\<forall>i r e. ([1] @ i # r, e) \<notin> set vs" and b: "([1], True) \<in> set vs \<and> ([1], False) \<in> set vs"
    by blast+
  from a have "([1] @ 0 # [], True) \<notin> set vs" "([1] @ 1 # [], True) \<notin> set vs" by blast+
  then have "([1, 0], True) \<notin> set vs" "([1, 1], True) \<notin> set vs" by simp_all
  with run b example_facts(1-3) example_more_facts(3) show ?thesis by blast
qed

text \<open>
  Claim C9. The transform pass changes the tree only by inserting anchors into headings.
  Every node outside all headings keeps its kind (for a heading, its level) and its
  attributes; if it is not a heading it keeps the number of its children, and if it is a
  heading its children are the old ones, whole and in order, with at most one anchor
  (that has no children) added in front or behind. No path outside headings appears or
  disappears. The renderer, called on an anchor node, returns the node as it was and the
  sink with bytes appended to what it already held.
\<close>

theorem Transform_frame:
  "(depth doc \<le> fuel \<longrightarrow>
     (\<exists>doc'. Transformer_Transform fuel T doc = Some doc' \<and>
        (\<forall>p n. outside_headings doc p \<and> subtree doc p = Some n \<longrightarrow>
           (\<exists>n'. subtree doc' p = Some n' \<and> kind n' = kind n \<and> attributes n' = attributes n \<and>
              (if is_heading n
               then children n' = children n \<or>
                    (\<exists>a. is_anchor a \<and> children a = [] \<and>
                       (children n' = a # children n \<or> children n' = children n @ [a]))
               else length (children n') = length (children n)))) \<and>
        (\<forall>p. outside_headings doc' p = outside_headings doc p))) \<and>
   (kind node = KAnchor ID' level Value \<longrightarrow>
     (\<exists>out. Renderer_RenderNode esc ra r w src node entering =
        Inr (WalkContinue, None, w @ out, node)))"
proof (intro conjI impI)
  assume "depth doc \<le> fuel"
  let ?t = "Transformer_tr T"
  from \<open>depth doc \<le> fuel\<close> have "wdepth doc \<le> fuel" using wdepth_le_depth [of doc] by simp
  then have run: "Transformer_Transform fuel T doc = Some (decorate ?t doc)"
    by (rule Transform_decorate)
  have frame: "\<exists>n'. subtree (decorate ?t doc) p = Some n' \<and> kind n' = kind n \<and>
        attributes n' = attributes n \<and>
        (if is_heading n
         then children n' = children n \<or>
              (\<exists>a. is_anchor a \<and> children a = [] \<and>
                 (children n' = a # children n \<or> children n' = children n @ [a]))
         else length (children n') = length (children n))"
    if "outside_headings doc p \<and> subtree doc p = Some n" for p n
  proof -
    from that have s: "subtree (decorate ?t doc) p = Some (decorate ?t n)"
      using subtree_decorate by blast
    have "if is_heading n
         then children (decorate ?t n) = children n \<or>
              (\<exists>a. is_anchor a \<and> children a = [] \<and>
                 (children (decorate ?t n) = a # children n \<or>
                  children (decorate ?t n) = children n @ [a]))
         else length (children (decorate ?t n)) = length (children n)"
    proof (cases "is_heading n")
      case True
      with children_transform_cases [OF True, of ?t] show ?thesis
        by (simp add: decorate_heading)
    next
      case False
      then show ?thesis by (simp add: decorate_other)
    qed
    with s show ?thesis by (simp add: kind_decorate attributes_decorate)
  qed
  from run frame outside_headings_decorate [of ?t doc]
  show "\<exists>doc'. Transformer_Transform fuel T doc = Some doc' \<and>
        (\<forall>p n. outside_headings doc p \<and> subtree doc p = Some n \<longrightarrow>
           (\<exists>n'. subtree doc' p = Some n' \<and> kind n' = kind n \<and> attributes n' = attributes n \<and>
              (if is_heading n
               then children n' = children n \<or>
                    (\<exists>a. is_anchor a \<and> children a = [] \<and>
                       (children n' = a # children n \<or> children n' = children n @ [a]))
               else length (children n') = length (children n)))) \<and>
        (\<forall>p. outside_headings doc' p = outside_headings doc p)"
    by blast
next
  assume "kind node = KAnchor ID' level Value"
  then show "\<exists>out. Renderer_RenderNode esc ra r w src node entering =
        Inr (WalkContinue, None, w @ out, node)"
    by (rule RenderNode_anchor_returns)
qed

text \<open>
  The paragraph of the example document is untouched by the pass, and rendering the
  example anchor extends the sink.
\<close>

theorem Transform_frame_witness:
  "depth example_doc \<le> 3 \<and> kind example_anchor = KAnchor ''intro'' 2 ''<#>'' \<and>
   (\<exists>doc'. Transformer_Transform 3 example_Transformer example_doc = Some doc' \<and>
      (\<exists>n'. subtree doc' [0] = Some n' \<and> kind n' = KOther ''Paragraph'' \<and>
         attributes n' = [] \<and> length (children n') = 0) \<and>
      outside_headings doc' [1, 0] = outside_headings example_doc [1, 0]) \<and>
   (\<exists>out. Renderer_RenderNode EscapeHTML RenderAttributes example_Renderer ''<h2>T'' [] example_anchor
        False = Inr (WalkContinue, None, ''<h2>T'' @ out, example_anchor))"
proof -
  note T = Transform_frame [where doc = example_doc and fuel = 3 and T = example_Transformer
      and node = example_anchor and ID' = "''intro''" and level = 2 and Value = "''<#>''"
      and esc = EscapeHTML and ra = RenderAttributes and r = example_Renderer
      and w = "''<h2>T''" and src = "[]" and entering = False]
  have p: "outside_headings example_doc [0] \<and>
     subtree example_doc [0] = Some (Node (KOther ''Paragraph'') [] [])"
    "\<not> is_heading (Node (KOther ''Paragraph'') [] [])"
    by (simp_all add: example_doc_def is_heading_def)
  from T example_facts(1) obtain doc' where
    run: "Transformer_Transform 3 example_Transformer example_doc = Some doc'"
    and fr: "\<forall>p n. outside_headings example_doc p \<and> subtree example_doc p = Some n \<longrightarrow>
           (\<exists>n'. subtree doc' p = Some n' \<and> kind n' = kind n \<and> attributes n' = attributes n \<and>
              (if is_heading n
               then children n' = children n \<or>
                    (\<exists>a. is_anchor a \<and> children a = [] \<and>
                       (children n' = a # children n \<or> children n' = children n @ [a]))
               else length (children n') = length (children n)))"
    and oh: "\<forall>p. outside_headings doc' p = outside_headings example_doc p"
    by blast
  from fr p(1) obtain n' where "subtree doc' [0] = Some n'"
    "kind n' = kind (Node (KOther ''Paragraph'') [] [])"
    "attributes n' = attributes (Node (KOther ''Paragraph'') [] [])"
    "if is_heading (Node (KOther ''Paragraph'') [] [])
               then children n' = children (Node (KOther ''Paragraph'') [] []) \<or>
                    (\<exists>a. is_anchor a \<and> children a = [] \<and>
                       (children n' = a # children (Node (KOther ''Paragraph'') [] []) \<or>
                        children n' = children (Node (KOther ''Paragraph'') [] []) @ [a]))
               else length (children n') = length (children (Node (KOther ''Paragraph'') [] []))"
    by blast
  with p(2) have "\<exists>n'. subtree doc' [0] = Some n' \<and> kind n' = KOther ''Paragraph'' \<and>
         attributes n' = [] \<and> length (children n') = 0"
    by simp
  moreover from oh have "outside_headings doc' [1, 0] = outside_headings example_doc [1, 0]"
    by blast
  moreover from T example_render_facts(1) have
    "\<exists>out. Renderer_RenderNode EscapeHTML RenderAttributes example_Renderer ''<h2>T'' [] example_anchor
        False = Inr (WalkContinue, None, ''<h2>T'' @ out, example_anchor)"
    by blast
  ultimately show ?thesis using run example_facts(1) example_render_facts(1) by blast
qed

section \<open>The render callback\<close>

text \<open>
  Claim C3. In the half of the enter/exit pair that the position does not use (entering
  when the position is not \<open>Before\<close>, exiting when it is), the renderer writes nothing
  and returns the continue status with no error, whatever the node. Called on an anchor
  node it always returns the continue status with no error, and it writes bytes exactly
  when the flag matches the position and the identifier of the node is not empty.
\<close>

theorem RenderNode_emits_iff:
  "((R_Position r = Before_Position) \<noteq> entering \<longrightarrow>
      Renderer_RenderNode esc ra r w src node entering = Inr (WalkContinue, None, w, node)) \<and>
   (kind node = KAnchor ID' level Value \<longrightarrow>
      (\<exists>out. Renderer_RenderNode esc ra r w src node entering =
                Inr (WalkContinue, None, w @ out, node) \<and>
             (out \<noteq> [] \<longleftrightarrow> (R_Position r = Before_Position) = entering \<and> ID' \<noteq> [])))"
proof (intro conjI impI)
  assume "(R_Position r = Before_Position) \<noteq> entering"
  then show "Renderer_RenderNode esc ra r w src node entering = Inr (WalkContinue, None, w, node)"
    by (rule RenderNode_other_half)
next
  assume k: "kind node = KAnchor ID' level Value"
  show "\<exists>out. Renderer_RenderNode esc ra r w src node entering =
                Inr (WalkContinue, None, w @ out, node) \<and>
             (out \<noteq> [] \<longleftrightarrow> (R_Position r = Before_Position) = entering \<and> ID' \<noteq> [])"
  proof (cases "(R_Position r = Before_Position) = entering \<and> ID' \<noteq> []")
    case True
    then have m: "(R_Position r = Before_Position) = entering" and i: "ID' \<noteq> []" by simp_all
    show ?thesis
      using RenderNode_emit [OF k m i, of esc ra w src] True
      by (intro exI [of _ "(if R_Position r = Before_Position then [] else '' '') @
         ''<a'' @ ra (attributes node) @ '' href='' @ [dq] @ ''#'' @ esc ID' @ [dq] @ ''>'' @
         (if Unsafe r then Value else esc Value) @ ''</a>'' @
         (if R_Position r = Before_Position then '' '' else [])"]) simp
  next
    case False
    from RenderNode_quiet [OF k False, of esc ra w src] False show ?thesis
      by (intro exI [of _ "[]"]) simp
  qed
qed

text \<open>
  The example renderer has position \<open>After\<close>: on entering the example anchor it writes
  nothing, on leaving it it writes the element.
\<close>

theorem RenderNode_emits_iff_witness:
  "(R_Position example_Renderer = Before_Position) \<noteq> True \<and>
   kind example_anchor = KAnchor ''intro'' 2 ''<#>'' \<and>
   Renderer_RenderNode EscapeHTML RenderAttributes example_Renderer ''<h2>T'' [] example_anchor True =
     Inr (WalkContinue, None, ''<h2>T'', example_anchor) \<and>
   (\<exists>out. Renderer_RenderNode EscapeHTML RenderAttributes example_Renderer ''<h2>T'' []
             example_anchor False = Inr (WalkContinue, None, ''<h2>T'' @ out, example_anchor) \<and>
          out \<noteq> [])"
proof -
  note enter = RenderNode_emits_iff [where r = example_Renderer and entering = True
      and node = example_anchor and ID' = "''intro''" and level = 2 and Value = "''<#>''"
      and esc = EscapeHTML and ra = RenderAttributes and w = "''<h2>T''" and src = "[]"]
  note leave = RenderNode_emits_iff [where r = example_Renderer and entering = False
      and node = example_anchor and ID' = "''intro''" and level = 2 and Value = "''<#>''"
      and esc = EscapeHTML and ra = RenderAttributes and w = "''<h2>T''" and src = "[]"]
  from enter example_render_facts(3) have
    "Renderer_RenderNode EscapeHTML RenderAttributes example_Renderer ''<h2>T'' [] example_anchor True =
     Inr (WalkContinue, None, ''<h2>T'', example_anchor)"
    by blast
  moreover from leave example_render_facts(1,2,4) have
    "\<exists>out. Renderer_RenderNode EscapeHTML RenderAttributes example_Renderer ''<h2>T'' []
             example_anchor False = Inr (WalkContinue, None, ''<h2>T'' @ out, example_anchor) \<and>
          out \<noteq> []"
    by simp
  ultimately show ?thesis using example_render_facts(1,3) by blast
qed

text \<open>
  Claim C4. Whenever the renderer emits an anchor, the bytes between \<open>href="#\<close> and the
  closing quote are the escaped identifier, whatever the \<open>Unsafe\<close> flag; the text of the
  element is the escaped value when \<open>Unsafe\<close> is false and the value as it is when
  \<open>Unsafe\<close> is true. (\<open>esc\<close> stands for \<^verbatim>\<open>util.EscapeHTML\<close>.)
\<close>

theorem RenderNode_escaping:
  assumes "kind node = KAnchor ID' level Value" "(R_Position r = Before_Position) = entering"
    "ID' \<noteq> []"
  shows "\<exists>lead trail. Renderer_RenderNode esc ra r w src node entering =
     Inr (WalkContinue, None,
       w @ lead @ ''<a'' @ ra (attributes node) @ '' href='' @ [dq] @ ''#'' @ esc ID' @ [dq] @ ''>'' @
         (if Unsafe r then Value else esc Value) @ ''</a>'' @ trail, node) \<and>
     (lead = [] \<or> lead = '' '') \<and> (trail = [] \<or> trail = '' '')"
proof -
  have "(if R_Position r = Before_Position then [] else '' '') = [] \<or>
        (if R_Position r = Before_Position then [] else '' '') = '' ''"
    "(if R_Position r = Before_Position then '' '' else []) = [] \<or>
     (if R_Position r = Before_Position then '' '' else []) = '' ''"
    by simp_all
  with RenderNode_emit [OF assms, of esc ra w src] show ?thesis by blast
qed

text \<open>
  The example anchor has the text \<open><#>\<close>: with \<open>Unsafe\<close> false the element holds
  \<open>&lt;#&gt;\<close>.
\<close>

theorem RenderNode_escaping_witness:
  "kind example_anchor = KAnchor ''intro'' 2 ''<#>'' \<and>
   (R_Position example_Renderer = Before_Position) = False \<and> ''intro'' \<noteq> [] \<and>
   (\<exists>lead trail. Renderer_RenderNode EscapeHTML RenderAttributes example_Renderer ''<h2>T'' []
        example_anchor False =
      Inr (WalkContinue, None,
        ''<h2>T'' @ lead @ ''<a'' @ '' class='' @ [dq] @ ''anchor'' @ [dq] @ '' href='' @ [dq] @
          ''#intro'' @ [dq] @ ''>'' @ ''&lt;#&gt;'' @ ''</a>'' @ trail, example_anchor))"
proof -
  have a: "RenderAttributes (attributes example_anchor) = '' class='' @ [dq] @ ''anchor'' @ [dq]"
    by (simp add: RenderAttributes_def example_anchor_def EscapeHTML_def EscapeHTMLByte_def)
  have b: "EscapeHTML ''intro'' = ''intro''" "EscapeHTML ''<#>'' = ''&lt;#&gt;''"
    by (simp_all add: EscapeHTML_def EscapeHTMLByte_def)
  have u: "\<not> Unsafe example_Renderer" by (simp add: example_Renderer_def)
  from RenderNode_escaping [OF example_render_facts(1,2,4), of EscapeHTML RenderAttributes
      "''<h2>T''" "[]"]
  obtain lead trail where
    "Renderer_RenderNode EscapeHTML RenderAttributes example_Renderer ''<h2>T'' [] example_anchor
       False =
     Inr (WalkContinue, None,
       ''<h2>T'' @ lead @ ''<a'' @ RenderAttributes (attributes example_anchor) @ '' href='' @ [dq] @
         ''#'' @ EscapeHTML ''intro'' @ [dq] @ ''>'' @
         (if Unsafe example_Renderer then ''<#>'' else EscapeHTML ''<#>'') @ ''</a>'' @ trail,
       example_anchor)"
    by blast
  then have "Renderer_RenderNode EscapeHTML RenderAttributes example_Renderer ''<h2>T'' []
        example_anchor False =
      Inr (WalkContinue, None,
        ''<h2>T'' @ lead @ ''<a'' @ '' class='' @ [dq] @ ''anchor'' @ [dq] @ '' href='' @ [dq] @
          ''#intro'' @ [dq] @ ''>'' @ ''&lt;#&gt;'' @ ''</a>'' @ trail, example_anchor)"
    by (simp add: a b u)
  with example_render_facts(1,2,4) show ?thesis by blast
qed

text \<open>
  Claim C5. Whenever the renderer emits an anchor it writes one separating space and the
  element \<open><a ...>...</a>\<close>: for the position \<open>Before\<close> the element comes first and the
  space is the last byte written (the deferred write), for any other position
  (\<open>After\<close>) the space is written first and the element follows it at once.
\<close>

theorem RenderNode_separating_space:
  assumes "kind node = KAnchor ID' level Value" "(R_Position r = Before_Position) = entering"
    "ID' \<noteq> []"
  shows "\<exists>body. Renderer_RenderNode esc ra r w src node entering =
     Inr (WalkContinue, None,
       (if R_Position r = Before_Position then w @ (''<a'' @ body @ ''</a>'') @ '' ''
        else w @ '' '' @ (''<a'' @ body @ ''</a>'')), node)"
  using RenderNode_emit [OF assms, of esc ra w src]
  by (intro exI [of _ "ra (attributes node) @ '' href='' @ [dq] @ ''#'' @ esc ID' @ [dq] @ ''>'' @
         (if Unsafe r then Value else esc Value)"]) simp

text \<open>With the position \<open>After\<close> the example anchor is written as a space and the element.\<close>

theorem RenderNode_separating_space_witness:
  "kind example_anchor = KAnchor ''intro'' 2 ''<#>'' \<and>
   (R_Position example_Renderer = Before_Position) = False \<and> ''intro'' \<noteq> [] \<and>
   (\<exists>body. Renderer_RenderNode EscapeHTML RenderAttributes example_Renderer ''<h2>T'' []
        example_anchor False =
      Inr (WalkContinue, None, ''<h2>T'' @ '' '' @ (''<a'' @ body @ ''</a>''), example_anchor))"
  using RenderNode_separating_space [OF example_render_facts(1,2,4), of EscapeHTML RenderAttributes
      "''<h2>T''" "[]"] example_render_facts
  by simp

text \<open>
  Claim C10. The renderer is a function of the identifier, the value and the attribute
  list of the anchor, of the flag and of the two configuration fields: two calls that
  agree on these (and on the level) write the same bytes and return the same status and
  error, whatever the sinks held before, whatever the source bytes are and whatever else
  the two nodes hold.
\<close>

theorem RenderNode_deterministic:
  assumes "kind n1 = KAnchor ID' level Value" "kind n2 = KAnchor ID' level Value"
    "attributes n1 = attributes n2" "R_Position r1 = R_Position r2" "Unsafe r1 = Unsafe r2"
  shows "\<exists>status err out.
     Renderer_RenderNode esc ra r1 w1 s1 n1 entering = Inr (status, err, w1 @ out, n1) \<and>
     Renderer_RenderNode esc ra r2 w2 s2 n2 entering = Inr (status, err, w2 @ out, n2)"
proof (cases "(R_Position r1 = Before_Position) = entering \<and> ID' \<noteq> []")
  case True
  then have m1: "(R_Position r1 = Before_Position) = entering" and i: "ID' \<noteq> []" by simp_all
  from m1 assms(4) have m2: "(R_Position r2 = Before_Position) = entering" by simp
  from RenderNode_emit [OF assms(1) m1 i, of esc ra w1 s1]
    RenderNode_emit [OF assms(2) m2 i, of esc ra w2 s2] assms(3-5)
  show ?thesis by simp
next
  case False
  then have "\<not> ((R_Position r2 = Before_Position) = entering \<and> ID' \<noteq> [])"
    using assms(4) by simp
  from RenderNode_quiet [OF assms(1) False, of esc ra w1 s1]
    RenderNode_quiet [OF assms(2) this, of esc ra w2 s2]
  show ?thesis by simp
qed

text \<open>
  Two calls on the example anchor and on a copy of it with a child, with different
  sinks and sources, write the same bytes.
\<close>

theorem RenderNode_deterministic_witness:
  "kind example_anchor = KAnchor ''intro'' 2 ''<#>'' \<and>
   kind (Node (KAnchor ''intro'' 2 ''<#>'') (attributes example_anchor) [example_heading]) =
     KAnchor ''intro'' 2 ''<#>'' \<and>
   attributes example_anchor =
     attributes (Node (KAnchor ''intro'' 2 ''<#>'') (attributes example_anchor) [example_heading]) \<and>
   R_Position example_Renderer = R_Position example_Renderer \<and>
   Unsafe example_Renderer = Unsafe example_Renderer \<and>
   (\<exists>status err out.
      Renderer_RenderNode EscapeHTML RenderAttributes example_Renderer ''<h2>T'' [] example_anchor
        False = Inr (status, err, ''<h2>T'' @ out, example_anchor) \<and>
      Renderer_RenderNode EscapeHTML RenderAttributes example_Renderer ''<h1>'' ''# src''
        (Node (KAnchor ''intro'' 2 ''<#>'') (attributes example_anchor) [example_heading]) False =
        Inr (status, err, ''<h1>'' @ out,
          Node (KAnchor ''intro'' 2 ''<#>'') (attributes example_anchor) [example_heading]))"
proof -
  have k2: "kind (Node (KAnchor ''intro'' 2 ''<#>'') (attributes example_anchor) [example_heading]) =
     KAnchor ''intro'' 2 ''<#>''"
    and a: "attributes example_anchor =
     attributes (Node (KAnchor ''intro'' 2 ''<#>'') (attributes example_anchor) [example_heading])"
    by simp_all
  from RenderNode_deterministic [OF example_render_facts(1) k2 a refl refl,
      of EscapeHTML RenderAttributes example_Renderer "''<h2>T''" "[]" False "''<h1>''" "''# src''"]
    example_render_facts(1) k2 a
  show ?thesis by blast
qed

section \<open>Failures\<close>

text \<open>
  Claim C8. Neither pass originates a failure. The visit callback returns a nil error
  for every node, flag and configuration. A heading with no \<open>id\<close> attribute, with an
  \<open>id\<close> that is not a byte slice (a string, or any other value), or with an empty
  policy text is left as it is and the callback returns the skip status with no error.
  The walk of a document, given fuel for its depth, returns with a nil error. The render
  callback, called on an anchor node, returns the continue status with a nil error.
\<close>

theorem no_failure_originates:
  "fst (snd (transform_Visit t n enter)) = None \<and>
   (kind h = KHeading hl \<longrightarrow>
      (AttributeString h ''id'' = None \<longrightarrow> transform_Visit t h True = (WalkSkipChildren, None, h)) \<and>
      (\<forall>s. AttributeString h ''id'' = Some (StringVal s) \<longrightarrow>
         transform_Visit t h True = (WalkSkipChildren, None, h)) \<and>
      (AttributeString h ''id'' = Some OtherVal \<longrightarrow>
         transform_Visit t h True = (WalkSkipChildren, None, h)) \<and>
      (\<forall>id'. AttributeString h ''id'' = Some (BytesVal id') \<and>
             Texter t \<lparr>Level = hl, ID = id'\<rparr> = [] \<longrightarrow>
         transform_Visit t h True = (WalkSkipChildren, None, h))) \<and>
   (depth doc \<le> fuel \<longrightarrow> (\<exists>doc' vs. Walk fuel (transform_Visit t) doc = Some (None, doc', vs))) \<and>
   (kind node = KAnchor ID' level Value \<longrightarrow>
      (\<exists>w'. Renderer_RenderNode esc ra r w src node entering = Inr (WalkContinue, None, w', node)))"
proof (intro conjI impI allI)
  show "fst (snd (transform_Visit t n enter)) = None"
    by (simp add: transform_Visit_def split: node_kind.splits)
next
  assume k: "kind h = KHeading hl"
  then have hd: "is_heading h" by (rule is_heading_kind)
  {
    assume "AttributeString h ''id'' = None"
    then have "transform_transform t h = h" using k by (intro transform_skip) auto
    then show "transform_Visit t h True = (WalkSkipChildren, None, h)"
      by (simp add: transform_Visit_heading [OF hd])
  next
    fix s assume "AttributeString h ''id'' = Some (StringVal s)"
    then have "transform_transform t h = h" using k by (intro transform_skip) auto
    then show "transform_Visit t h True = (WalkSkipChildren, None, h)"
      by (simp add: transform_Visit_heading [OF hd])
  next
    assume "AttributeString h ''id'' = Some OtherVal"
    then have "transform_transform t h = h" using k by (intro transform_skip) auto
    then show "transform_Visit t h True = (WalkSkipChildren, None, h)"
      by (simp add: transform_Visit_heading [OF hd])
  next
    fix id' assume "AttributeString h ''id'' = Some (BytesVal id') \<and>
             Texter t \<lparr>Level = hl, ID = id'\<rparr> = []"
    then have "transform_transform t h = h" using k by (intro transform_skip) auto
    then show "transform_Visit t h True = (WalkSkipChildren, None, h)"
      by (simp add: transform_Visit_heading [OF hd])
  }
next
  assume "depth doc \<le> fuel"
  then have "wdepth doc \<le> fuel" using wdepth_le_depth [of doc] by simp
  from Walk_Visit [OF this, of t]
  show "\<exists>doc' vs. Walk fuel (transform_Visit t) doc = Some (None, doc', vs)" by blast
next
  assume "kind node = KAnchor ID' level Value"
  from RenderNode_anchor_returns [OF this, of esc ra r w src entering]
  show "\<exists>w'. Renderer_RenderNode esc ra r w src node entering = Inr (WalkContinue, None, w', node)"
    by blast
qed

text \<open>
  Headings with no identifier, with a string identifier, with an identifier of another
  type and with an empty policy text are each skipped without an error; the walk of the
  example document and the rendering of the example anchor return without one.
\<close>

theorem no_failure_originates_witness:
  "kind (Node (KHeading 3) [] []) = KHeading 3 \<and>
   AttributeString (Node (KHeading 3) [] []) ''id'' = None \<and>
   transform_Visit (Transformer_tr example_Transformer) (Node (KHeading 3) [] []) True =
     (WalkSkipChildren, None, Node (KHeading 3) [] []) \<and>
   AttributeString (Node (KHeading 3) [(''id'', StringVal ''x'')] []) ''id'' = Some (StringVal ''x'') \<and>
   transform_Visit (Transformer_tr example_Transformer)
       (Node (KHeading 3) [(''id'', StringVal ''x'')] []) True =
     (WalkSkipChildren, None, Node (KHeading 3) [(''id'', StringVal ''x'')] []) \<and>
   AttributeString (Node (KHeading 3) [(''id'', OtherVal)] []) ''id'' = Some OtherVal \<and>
   transform_Visit (Transformer_tr example_Transformer) (Node (KHeading 3) [(''id'', OtherVal)] [])
       True =
     (WalkSkipChildren, None, Node (KHeading 3) [(''id'', OtherVal)] []) \<and>
   kind example_heading = KHeading 2 \<and>
   AttributeString example_heading ''id'' = Some (BytesVal ''intro'') \<and>
   Texter \<lparr>Texter = Text [], Position = After, Attributer = defaultAttributer\<rparr>
     \<lparr>Level = 2, ID = ''intro''\<rparr> = [] \<and>
   transform_Visit \<lparr>Texter = Text [], Position = After, Attributer = defaultAttributer\<rparr>
       example_heading True =
     (WalkSkipChildren, None, example_heading) \<and>
   depth example_doc \<le> 3 \<and>
   (\<exists>doc' vs. Walk 3 (transform_Visit (Transformer_tr example_Transformer)) example_doc =
      Some (None, doc', vs)) \<and>
   kind example_anchor = KAnchor ''intro'' 2 ''<#>'' \<and>
   (\<exists>w'. Renderer_RenderNode EscapeHTML RenderAttributes example_Renderer ''<h2>T'' [] example_anchor
      False = Inr (WalkContinue, None, w', example_anchor))"
proof -
  let ?t = "Transformer_tr example_Transformer"
  let ?e = "\<lparr>Texter = Text [], Position = After, Attributer = defaultAttributer\<rparr>"
  have k: "kind (Node (KHeading 3) as []) = KHeading 3" for as by simp
  have a1: "AttributeString (Node (KHeading 3) [] []) ''id'' = None"
    and a2: "AttributeString (Node (KHeading 3) [(''id'', StringVal ''x'')] []) ''id'' =
      Some (StringVal ''x'')"
    and a3: "AttributeString (Node (KHeading 3) [(''id'', OtherVal)] []) ''id'' = Some OtherVal"
    by (simp_all add: AttributeString_def)
  have e: "Texter ?e \<lparr>Level = 2, ID = ''intro''\<rparr> = []" by (simp add: Text_def)
  note N1 = no_failure_originates [where t = ?t and h = "Node (KHeading 3) [] []" and hl = 3
      and doc = example_doc and fuel = 3 and node = example_anchor and ID' = "''intro''"
      and level = 2 and Value = "''<#>''" and esc = EscapeHTML and ra = RenderAttributes
      and r = example_Renderer and w = "''<h2>T''" and src = "[]" and entering = False]
  note N2 = no_failure_originates [where t = ?t
      and h = "Node (KHeading 3) [(''id'', StringVal ''x'')] []" and hl = 3]
  note N3 = no_failure_originates [where t = ?t
      and h = "Node (KHeading 3) [(''id'', OtherVal)] []" and hl = 3]
  note N4 = no_failure_originates [where t = ?e and h = example_heading and hl = 2]
  from N1 k a1 have c1: "transform_Visit ?t (Node (KHeading 3) [] []) True =
     (WalkSkipChildren, None, Node (KHeading 3) [] [])"
    by blast
  from N2 k a2 have c2: "transform_Visit ?t (Node (KHeading 3) [(''id'', StringVal ''x'')] []) True =
     (WalkSkipChildren, None, Node (KHeading 3) [(''id'', StringVal ''x'')] [])"
    by blast
  from N3 k a3 have c3: "transform_Visit ?t (Node (KHeading 3) [(''id'', OtherVal)] []) True =
     (WalkSkipChildren, None, Node (KHeading 3) [(''id'', OtherVal)] [])"
    by blast
  from N4 example_facts(4,5) e have c4: "transform_Visit ?e example_heading True =
     (WalkSkipChildren, None, example_heading)"
    by blast
  from N1 example_facts(1) have c5:
    "\<exists>doc' vs. Walk 3 (transform_Visit ?t) example_doc = Some (None, doc', vs)"
    by blast
  from N1 example_render_facts(1) have c6:
    "\<exists>w'. Renderer_RenderNode EscapeHTML RenderAttributes example_Renderer ''<h2>T'' [] example_anchor
      False = Inr (WalkContinue, None, w', example_anchor)"
    by blast
  from k [of "[]"] a1 c1 a2 c2 a3 c3 example_facts(4,5) e c4 example_facts(1) c5
    example_render_facts(1) c6
  show ?thesis by (intro conjI)
qed

end
